theory Spec2Isabelle
  imports Main "HOL-Library.Sublist" "HOL-Library.Multiset" "HOL-Library.AList"
begin

section \<open>The safekeeper templating tool (safekeeper.go)\<close>

text \<open>
  The tool reads the template \<open>path.safekeeper\<close>, replaces every placeholder \<open>ENV_key\<close> by
  the value of the environment variable \<open>key\<close>, and writes a generated header followed by
  the rewritten lines. Strings are byte lists, as Go strings are.
\<close>

subsection \<open>Errors and the operating system\<close>

text \<open>
  Every \<open>log.Fatal\<close> of the source ends the process; the error it reports is a value here.
  \<open>StatFailure\<close> is the \<open>log.Fatal\<close> of \<open>isFile\<close> when \<open>os.Stat\<close> fails, \<open>ReadFailure\<close> the
  error of \<open>scanner.Err()\<close>.
\<close>

datatype error =
    MissingEnvironmentVariable string
  | StatFailure string
  | UnsupportedInput
  | TemplateNotFound string
  | ReadFailure
  | WriteFailure string

type_synonym gomap = "(string \<times> string) list"

text \<open>
  What the program sees of its surroundings: the environment, what \<open>os.Stat\<close> answers
  (\<open>None\<close>: an error, \<open>Some True\<close>: a directory), the files \<open>os.Open\<close> can read, the
  destinations \<open>ioutil.WriteFile\<close> can write, and the order in which the Go runtime
  enumerates a map in a \<open>range\<close> loop (the language leaves that order open).
\<close>

record os =
  environ :: "string \<rightharpoonup> string"
  isDir :: "string \<rightharpoonup> bool"
  files :: "string \<rightharpoonup> string"
  writable :: "string \<Rightarrow> bool"
  mapRange :: "gomap \<Rightarrow> gomap"

text \<open>The package-level flag variables \<open>keyNames\<close>, \<open>output\<close> (here \<open>outputFlag\<close>) and \<open>paths\<close>.\<close>

record flags =
  keyNames :: string
  outputFlag :: string
  paths :: "string list"

text \<open>What a run did: its fatal error if any, the files it read, the files it wrote.\<close>

record outcome =
  failure :: "error option"
  reads :: "string list"
  writes :: "(string \<times> string) list"

definition fatal :: "error \<Rightarrow> string list \<Rightarrow> outcome" where
  "fatal e rs = \<lparr>failure = Some e, reads = rs, writes = []\<rparr>"

subsection \<open>Library functions the program calls\<close>

abbreviation newline :: char where
  "newline \<equiv> CHR 0x0A"

abbreviation carriageReturn :: char where
  "carriageReturn \<equiv> CHR 0x0D"

text \<open>\<open>os.Getenv\<close>: the empty string for a variable that is not set, and for the empty name.\<close>

definition Getenv :: "os \<Rightarrow> string \<Rightarrow> string" where
  "Getenv w key =
     (if key = [] then []
      else case environ w key of None \<Rightarrow> [] | Some v \<Rightarrow> v)"

text \<open>\<open>strings.Split\<close> for a separator of one byte, as in \<open>strings.Split(keys, ",")\<close>.\<close>

fun Split :: "string \<Rightarrow> char \<Rightarrow> string list" where
  "Split [] sep = [[]]"
| "Split (c # cs) sep =
     (if c = sep then [] # Split cs sep
      else case Split cs sep of
             [] \<Rightarrow> [[c]]
           | x # xs \<Rightarrow> (c # x) # xs)"

definition Contains :: "string \<Rightarrow> string \<Rightarrow> bool" where
  "Contains s substr = sublist substr s"

definition Sprintln :: "string \<Rightarrow> string" where
  "Sprintln s = s @ [newline]"

text \<open>
  \<open>strings.NewReplacer(old, new).Replace\<close>: for one pair with \<open>old\<close> longer than one byte
  the replacer scans from the left and replaces the occurrences of \<open>old\<close> that do not
  overlap. Every replacer of the program has an \<open>old\<close> that starts with \<open>ENV_\<close>; for the
  empty \<open>old\<close>, which the program never builds, the function returns its argument.
\<close>

fun Replace :: "string \<Rightarrow> string \<Rightarrow> string \<Rightarrow> string" where
  "Replace old new [] = []"
| "Replace old new (c # cs) =
     (if old \<noteq> [] \<and> prefix old (c # cs)
      then new @ Replace old new (drop (length old) (c # cs))
      else c # Replace old new cs)"

type_synonym Replacer = "string \<times> string"

definition NewReplacer :: "string \<Rightarrow> string \<Rightarrow> Replacer" where
  "NewReplacer old new = (old, new)"

definition Replacer_Replace :: "Replacer \<Rightarrow> string \<Rightarrow> string" where
  "Replacer_Replace r s = Replace (fst r) (snd r) s"

text \<open>
  \<open>bufio.Scanner\<close> with its default split function \<open>ScanLines\<close> and its default buffer:
  a token is the text up to the next newline, or the rest of the input when that is not
  empty, without one trailing carriage return; a line of \<open>MaxScanTokenSize\<close> bytes or more
  does not fit the buffer and stops the scanner with an error.
\<close>

definition MaxScanTokenSize :: nat where
  "MaxScanTokenSize = 64 * 1024"

definition dropCR :: "string \<Rightarrow> string" where
  "dropCR data = (if data \<noteq> [] \<and> last data = carriageReturn then butlast data else data)"

definition Scan :: "string \<Rightarrow> (error + string \<times> string) option" where
  "Scan data =
     (if data = [] then None
      else let raw = takeWhile (\<lambda>c. c \<noteq> newline) data;
               rest = drop 1 (dropWhile (\<lambda>c. c \<noteq> newline) data)
           in if MaxScanTokenSize \<le> length raw then Some (Inl ReadFailure)
              else Some (Inr (dropCR raw, rest)))"

subsection \<open>The program\<close>

record errWriter =
  ew_b :: string
  ew_err :: "error option"

text \<open>\<open>bytes.Buffer.WriteString\<close> appends and returns no error.\<close>

definition writeString :: "errWriter \<Rightarrow> string \<Rightarrow> errWriter" where
  "writeString ew v =
     (if ew_err ew \<noteq> None then ew
      else ew\<lparr>ew_b := ew_b ew @ v, ew_err := None\<rparr>)"

fun loadLoop :: "os \<Rightarrow> string list \<Rightarrow> gomap \<Rightarrow> error + gomap" where
  "loadLoop w [] keyValues = Inr keyValues"
| "loadLoop w (key # ks) keyValues =
     (let v = Getenv w key
      in if v = [] then Inl (MissingEnvironmentVariable key)
         else loadLoop w ks (AList.update key v keyValues))"

definition loadKeyValues :: "os \<Rightarrow> string list \<Rightarrow> error + gomap" where
  "loadKeyValues w ks = loadLoop w ks []"

definition isFile :: "os \<Rightarrow> string \<Rightarrow> error + bool" where
  "isFile w name =
     (case isDir w name of
        None \<Rightarrow> Inl (StatFailure name)
      | Some d \<Rightarrow> Inr (\<not> d))"

definition openTemplateFile :: "os \<Rightarrow> string \<Rightarrow> error + string" where
  "openTemplateFile w path =
     (let templateFileName = path @ ''.safekeeper''
      in case files w templateFileName of
           None \<Rightarrow> Inl (TemplateNotFound templateFileName)
         | Some content \<Rightarrow> Inr content)"

definition warningLine :: string where
  "warningLine =
     ''// GENERATED by safekeeper (https://github.com/alexandre-normand/safekeeper, DO NOT EDIT''"

definition writeHeader :: "flags \<Rightarrow> string \<Rightarrow> string \<times> error option" where
  "writeHeader g buffer =
     (let ew0 = \<lparr>ew_b = buffer, ew_err = None\<rparr>;
          ew1 = writeString ew0 (Sprintln warningLine);
          ew2 = writeString ew1 (''//go:generate safekeeper --keys='' @ keyNames g);
          ew3 = (if outputFlag g \<noteq> [] then writeString ew2 ('' --output='' @ outputFlag g) else ew2);
          ew4 = writeString ew3 ('' $GOFILE'' @ [newline])
      in (ew_b ew4, ew_err ew4))"

definition setupReplacers :: "os \<Rightarrow> gomap \<Rightarrow> Replacer list" where
  "setupReplacers w keyValues =
     map (\<lambda>(key, v). NewReplacer (''ENV_'' @ key) v) (mapRange w keyValues)"

definition isDirective :: "string \<Rightarrow> bool" where
  "isDirective line = (Contains line ''go:generate'' \<and> Contains line ''safekeeper'')"

function scanLoop :: "Replacer list \<Rightarrow> string \<Rightarrow> string \<Rightarrow> error + string" where
  "scanLoop replacers data buffer =
     (case Scan data of
        None \<Rightarrow> Inr buffer
      | Some (Inl e) \<Rightarrow> Inl e
      | Some (Inr (line, rest)) \<Rightarrow>
          if \<not> isDirective line
          then scanLoop replacers rest (buffer @ Sprintln (fold Replacer_Replace replacers line))
          else scanLoop replacers rest buffer)"
  by pat_completeness auto
termination
proof (relation "measure (\<lambda>(replacers, data, buffer). length data)")
  show "wf (measure (\<lambda>(replacers :: Replacer list, data :: string, buffer :: string). length data))"
    by simp
next
  fix replacers :: "Replacer list" and data buffer :: string and x2 a x y
  assume "Scan data = Some x2" "x2 = Inr a" "(x, y) = a"
  then have sc: "Scan data = Some (Inr (x, y))" by simp
  then have ne: "data \<noteq> []" and r: "y = drop 1 (dropWhile (\<lambda>c. c \<noteq> newline) data)"
    by (auto simp: Scan_def Let_def split: if_splits)
  have "length (dropWhile (\<lambda>c. c \<noteq> newline) data) \<le> length data"
    by (rule length_dropWhile_le)
  with ne r have "length y < length data"
    by (cases data) auto
  then show "((replacers, y, buffer @ Sprintln (fold Replacer_Replace replacers x)),
              replacers, data, buffer) \<in> measure (\<lambda>(replacers, data, buffer). length data)"
    and "((replacers, y, buffer), replacers, data, buffer)
              \<in> measure (\<lambda>(replacers, data, buffer). length data)"
    by simp_all
qed

definition substituteValues ::
  "os \<Rightarrow> string \<Rightarrow> gomap \<Rightarrow> string \<Rightarrow> (error + string) \<times> string list" where
  "substituteValues w path keyValues buffer =
     (case openTemplateFile w path of
        Inl e \<Rightarrow> (Inl e, [])
      | Inr content \<Rightarrow>
          (scanLoop (setupReplacers w keyValues) content buffer, [path @ ''.safekeeper'']))"

definition run :: "os \<Rightarrow> flags \<Rightarrow> string \<Rightarrow> string \<Rightarrow> string list \<Rightarrow> outcome" where
  "run w g keys out inputPaths =
     (case loadKeyValues w (Split keys CHR '','') of
        Inl e \<Rightarrow> fatal e []
      | Inr keyValues \<Rightarrow>
          (case inputPaths of
             [p] \<Rightarrow>
               (case isFile w p of
                  Inl e \<Rightarrow> fatal e []
                | Inr False \<Rightarrow> fatal UnsupportedInput []
                | Inr True \<Rightarrow>
                    (case writeHeader g [] of
                       (buffer, Some e) \<Rightarrow> fatal e []
                     | (buffer, None) \<Rightarrow>
                         (case substituteValues w p keyValues buffer of
                            (Inl e, rs) \<Rightarrow> fatal e rs
                          | (Inr src, rs) \<Rightarrow>
                              (let dest = (if out = [] then p else out)
                               in if writable w dest
                                  then \<lparr>failure = None, reads = rs, writes = [(dest, src)]\<rparr>
                                  else fatal (WriteFailure dest) rs))))
           | _ \<Rightarrow> fatal UnsupportedInput []))"

definition main :: "os \<Rightarrow> flags \<Rightarrow> outcome" where
  "main w g = run w g (keyNames g) (outputFlag g) (paths g)"

subsection \<open>Notions used to state the properties\<close>

text \<open>
  The lines the scanner sees before it drops a carriage return, the text one kept line
  contributes to the output, the output body, and the templates every line of which fits
  the scanner's buffer.
\<close>

function rawLines :: "string \<Rightarrow> string list" where
  "rawLines data =
     (if data = [] then []
      else takeWhile (\<lambda>c. c \<noteq> newline) data
           # rawLines (drop 1 (dropWhile (\<lambda>c. c \<noteq> newline) data)))"
  by pat_completeness auto
termination
proof (relation "measure length")
  show "wf (measure (length :: string \<Rightarrow> nat))" by simp
next
  fix data :: string
  assume ne: "data \<noteq> []"
  have "length (dropWhile (\<lambda>c. c \<noteq> newline) data) \<le> length data"
    by (rule length_dropWhile_le)
  with ne show "(drop 1 (dropWhile (\<lambda>c. c \<noteq> newline) data), data) \<in> measure length"
    by (cases data) auto
qed

definition keptLines :: "string \<Rightarrow> string list" where
  "keptLines content = filter (\<lambda>l. \<not> isDirective l) (map dropCR (rawLines content))"

definition substituted :: "Replacer list \<Rightarrow> string \<Rightarrow> string" where
  "substituted replacers line = fold Replacer_Replace replacers line"

definition body :: "Replacer list \<Rightarrow> string \<Rightarrow> string" where
  "body replacers content =
     concat (map (\<lambda>l. substituted replacers l @ [newline]) (keptLines content))"

definition fits :: "string \<Rightarrow> bool" where
  "fits content = (\<forall>raw \<in> set (rawLines content). length raw < MaxScanTokenSize)"

text \<open>The second line of the output, without its newline.\<close>

definition directiveLine :: "flags \<Rightarrow> string" where
  "directiveLine g =
     ''//go:generate safekeeper --keys='' @ keyNames g
     @ (if outputFlag g \<noteq> [] then '' --output='' @ outputFlag g else [])
     @ '' $GOFILE''"

text \<open>The keys of a run, and that every one of them has a value.\<close>

definition keyList :: "string \<Rightarrow> string list" where
  "keyList keys = Split keys CHR '',''"

definition resolved :: "os \<Rightarrow> string \<Rightarrow> bool" where
  "resolved w keys = (\<forall>k \<in> set (keyList keys). Getenv w k \<noteq> [])"

text \<open>
  Two words overlap when one occurs in the other, or a nonempty end of one is a start of
  the other: then writing one of them can complete or destroy an occurrence of the other.
\<close>

definition overlaps :: "string \<Rightarrow> string \<Rightarrow> bool" where
  "overlaps v t =
     (sublist v t \<or> sublist t v
      \<or> (\<exists>x \<in> set (suffixes v). x \<noteq> [] \<and> prefix x t)
      \<or> (\<exists>x \<in> set (prefixes v). x \<noteq> [] \<and> suffix x t))"

text \<open>
  The runtime enumerates every entry of a map once, in some order; and no value of a key
  overlaps one of the given words.
\<close>

definition enumerates :: "os \<Rightarrow> bool" where
  "enumerates w = (\<forall>m. mset (mapRange w m) = mset m)"

definition valuesClearOf :: "os \<Rightarrow> string \<Rightarrow> string list \<Rightarrow> bool" where
  "valuesClearOf w keys toks =
     (\<forall>k \<in> set (keyList keys). \<forall>t \<in> set toks. \<not> overlaps (Getenv w k) t)"

text \<open>The placeholder tokens of the keys of a run.\<close>

definition placeholders :: "string \<Rightarrow> string list" where
  "placeholders keys = map (\<lambda>k. ''ENV_'' @ k) (keyList keys)"






text \<open>The map \<open>loadKeyValues\<close> builds when every key has a value.\<close>

definition keyValuesOf :: "os \<Rightarrow> string \<Rightarrow> gomap" where
  "keyValuesOf w keys = fold (\<lambda>k. AList.update k (Getenv w k)) (keyList keys) []"

text \<open>A small world: one variable, one template of one line.\<close>

definition ex_os :: os where
  "ex_os = \<lparr>environ = [''FOO'' \<mapsto> ''bar''], isDir = [''f.go'' \<mapsto> False],
            files = [''f.go.safekeeper'' \<mapsto> ''x := ENV_FOO''],
            writable = (\<lambda>p. True), mapRange = (\<lambda>m. m)\<rparr>"

definition ex_flags :: flags where
  "ex_flags = \<lparr>keyNames = ''FOO'', outputFlag = [], paths = [''f.go'']\<rparr>"







text \<open>The same world, with a variable whose value is its own placeholder.\<close>

definition selfref_os :: os where
  "selfref_os = ex_os\<lparr>environ := [''FOO'' \<mapsto> ''ENV_FOO'']\<rparr>"


section \<open>Properties\<close>

text \<open>The two loops are unfolded by hand, one step at a time.\<close>

declare scanLoop.simps [simp del]

declare rawLines.simps [simp del]

subsection \<open>Loading the key values\<close>

lemma loadLoop_find:
  "loadLoop w ks m =
     (case List.find (\<lambda>k. Getenv w k = []) ks of
        Some k \<Rightarrow> Inl (MissingEnvironmentVariable k)
      | None \<Rightarrow> Inr (fold (\<lambda>k. AList.update k (Getenv w k)) ks m))"
  by (induction ks arbitrary: m) (auto simp: Let_def split: option.splits)

lemma run_missing:
  "List.find (\<lambda>k. Getenv w k = []) (Split keys CHR '','') = Some k \<Longrightarrow>
   run w g keys out inputPaths = fatal (MissingEnvironmentVariable k) []"
  by (simp add: run_def loadKeyValues_def loadLoop_find)

lemma find_first_empty:
  "Getenv w k0 = [] \<Longrightarrow> \<forall>k' \<in> set pre. Getenv w k' \<noteq> [] \<Longrightarrow>
   List.find (\<lambda>k. Getenv w k = []) (pre @ k0 # post) = Some k0"
  by (induction pre) auto

text \<open>
  C5. If the value of some supplied key is unset or empty, the run aborts with
  \<open>MissingEnvironmentVariable\<close>, naming the first such key in the supplied order; it has
  read no file (the template is not opened) and written none.
\<close>

theorem missing_env_aborts_first:
  assumes "k \<in> set (Split keys CHR '','')" and "Getenv w k = []"
  shows "\<exists>pre k0 post.
           Split keys CHR '','' = pre @ k0 # post
           \<and> (\<forall>k' \<in> set pre. Getenv w k' \<noteq> [])
           \<and> Getenv w k0 = []
           \<and> run w g keys out inputPaths
               = \<lparr>failure = Some (MissingEnvironmentVariable k0), reads = [], writes = []\<rparr>"
proof -
  let ?ks = "Split keys CHR '',''"
  from assms have "\<exists>x \<in> set ?ks. Getenv w x = []" by blast
  then obtain pre k0 post where sp: "?ks = pre @ k0 # post"
    and k0: "Getenv w k0 = []" and pre: "\<forall>k' \<in> set pre. Getenv w k' \<noteq> []"
    by (auto simp: split_list_first_prop_iff)
  from k0 pre have "List.find (\<lambda>k. Getenv w k = []) (pre @ k0 # post) = Some k0"
    by (rule find_first_empty)
  with sp have "List.find (\<lambda>k. Getenv w k = []) ?ks = Some k0" by simp
  then have "run w g keys out inputPaths = fatal (MissingEnvironmentVariable k0) []"
    by (rule run_missing)
  with sp k0 pre show ?thesis
    unfolding fatal_def by blast
qed

theorem missing_env_aborts_first_witness:
  "''BAZ'' \<in> set (Split ''FOO,BAZ'' CHR '','') \<and> Getenv ex_os ''BAZ'' = []
   \<and> run ex_os ex_flags ''FOO,BAZ'' [] [''f.go'']
       = \<lparr>failure = Some (MissingEnvironmentVariable ''BAZ''), reads = [], writes = []\<rparr>"
proof -
  have sp: "Split ''FOO,BAZ'' CHR '','' = [''FOO'', ''BAZ'']" by simp
  have h1: "''BAZ'' \<in> set (Split ''FOO,BAZ'' CHR '','')" by simp
  have h2: "Getenv ex_os ''BAZ'' = []" by (simp add: Getenv_def ex_os_def)
  have foo: "Getenv ex_os ''FOO'' \<noteq> []" by (simp add: Getenv_def ex_os_def)
  from missing_env_aborts_first [OF h1 h2, of ex_flags "[]" "[''f.go'']"]
  obtain pre k0 post where a: "Split ''FOO,BAZ'' CHR '','' = pre @ k0 # post"
    and b: "Getenv ex_os k0 = []"
    and c: "run ex_os ex_flags ''FOO,BAZ'' [] [''f.go'']
            = \<lparr>failure = Some (MissingEnvironmentVariable k0), reads = [], writes = []\<rparr>"
    by blast
  from a sp have "k0 = ''FOO'' \<or> k0 = ''BAZ''"
    by (auto simp: Cons_eq_append_conv)
  with b foo have "k0 = ''BAZ''" by auto
  with c h1 h2 show ?thesis by simp
qed

subsection \<open>What a run computes\<close>

lemma writeHeader_eq:
  "writeHeader g buffer = (buffer @ warningLine @ [newline] @ directiveLine g @ [newline], None)"
  by (simp add: writeHeader_def writeString_def Sprintln_def directiveLine_def Let_def)

lemma rawLines_Nil: "rawLines [] = []"
  by (simp add: rawLines.simps)

lemma rawLines_Cons:
  "data \<noteq> [] \<Longrightarrow>
   rawLines data = takeWhile (\<lambda>c. c \<noteq> newline) data
                   # rawLines (drop 1 (dropWhile (\<lambda>c. c \<noteq> newline) data))"
  by (subst rawLines.simps) simp

lemma scanLoop_body:
  "scanLoop rs data buf = (if fits data then Inr (buf @ body rs data) else Inl ReadFailure)"
proof (induction rs data buf rule: scanLoop.induct)
  case (1 rs data buf)
  show ?case
  proof (cases "data = []")
    case True
    then show ?thesis
      by (simp add: scanLoop.simps [of rs "[]" buf] Scan_def fits_def body_def keptLines_def
          rawLines_Nil)
  next
    case ne: False
    define raw where "raw = takeWhile (\<lambda>c. c \<noteq> newline) data"
    define rest where "rest = drop 1 (dropWhile (\<lambda>c. c \<noteq> newline) data)"
    have rl: "rawLines data = raw # rawLines rest"
      using ne by (simp add: rawLines_Cons raw_def rest_def)
    show ?thesis
    proof (cases "MaxScanTokenSize \<le> length raw")
      case True
      then have "Scan data = Some (Inl ReadFailure)"
        using ne by (simp add: Scan_def Let_def raw_def)
      moreover have "\<not> fits data"
        using True by (auto simp: fits_def rl)
      ultimately show ?thesis
        by (simp add: scanLoop.simps [of rs data buf])
    next
      case False
      then have sc: "Scan data = Some (Inr (dropCR raw, rest))"
        using ne by (simp add: Scan_def Let_def raw_def rest_def)
      have f: "fits data = fits rest"
        using False by (auto simp: fits_def rl)
      show ?thesis
      proof (cases "isDirective (dropCR raw)")
        case True
        with sc f "1.IH"(2) [OF sc refl refl] show ?thesis
          by (simp add: scanLoop.simps [of rs data buf] body_def keptLines_def rl)
      next
        case False
        with sc f "1.IH"(1) [OF sc refl refl] show ?thesis
          by (simp add: scanLoop.simps [of rs data buf] body_def keptLines_def rl
              substituted_def Sprintln_def)
      qed
    qed
  qed
qed

lemma loadKeyValues_resolved:
  "resolved w keys \<Longrightarrow>
   loadKeyValues w (Split keys CHR '','')
     = Inr (fold (\<lambda>k. AList.update k (Getenv w k)) (keyList keys) [])"
  by (auto simp: resolved_def keyList_def loadKeyValues_def loadLoop_find find_None_iff
      split: option.splits)

lemma loadKeyValues_unresolved:
  "\<not> resolved w keys \<Longrightarrow> \<exists>k. loadKeyValues w (Split keys CHR '','') = Inl (MissingEnvironmentVariable k)"
  by (auto simp: resolved_def keyList_def loadKeyValues_def loadLoop_find find_None_iff
      split: option.splits)

lemma run_file:
  assumes "resolved w keys" "isDir w p = Some False"
  shows "run w g keys out [p] =
     (case files w (p @ ''.safekeeper'') of
        None \<Rightarrow> fatal (TemplateNotFound (p @ ''.safekeeper'')) []
      | Some content \<Rightarrow>
          if \<not> fits content then fatal ReadFailure [p @ ''.safekeeper'']
          else if \<not> writable w (if out = [] then p else out)
          then fatal (WriteFailure (if out = [] then p else out)) [p @ ''.safekeeper'']
          else \<lparr>failure = None, reads = [p @ ''.safekeeper''],
                 writes = [(if out = [] then p else out,
                            warningLine @ [newline] @ directiveLine g @ [newline]
                            @ body (setupReplacers w (keyValuesOf w keys)) content)]\<rparr>)"
  using assms
  by (simp add: run_def loadKeyValues_resolved isFile_def writeHeader_eq substituteValues_def
      openTemplateFile_def scanLoop_body keyValuesOf_def Let_def split: option.splits)

lemma run_not_file:
  assumes "\<not> (\<exists>p. inputPaths = [p] \<and> isDir w p = Some False)"
  shows "\<exists>e. run w g keys out inputPaths = fatal e []"
  using assms
  by (auto simp: run_def isFile_def split: sum.splits list.splits option.splits bool.splits)

subsection \<open>An example run\<close>

lemma rawLines_Cons_simp:
  "rawLines (c # cs) = takeWhile (\<lambda>c. c \<noteq> newline) (c # cs)
                   # rawLines (drop 1 (dropWhile (\<lambda>c. c \<noteq> newline) (c # cs)))"
  by (rule rawLines_Cons) simp

lemma resolved_ex: "resolved ex_os ''FOO''"
  by (simp add: resolved_def keyList_def Getenv_def ex_os_def)

lemma body_ex:
  "body (setupReplacers ex_os (keyValuesOf ex_os ''FOO'')) ''x := ENV_FOO'' = ''x := bar'' @ [newline]"
  by (simp add: body_def keptLines_def substituted_def rawLines_Cons_simp rawLines_Nil dropCR_def
      isDirective_def Contains_def sublist_code setupReplacers_def keyValuesOf_def keyList_def
      Getenv_def ex_os_def NewReplacer_def Replacer_Replace_def)

lemma fits_ex: "fits ''x := ENV_FOO''"
  by (simp add: fits_def rawLines_Cons_simp rawLines_Nil MaxScanTokenSize_def)


lemma main_ex:
  "main ex_os ex_flags =
     \<lparr>failure = None, reads = [''f.go.safekeeper''],
      writes = [(''f.go'', warningLine @ [newline]
                  @ ''//go:generate safekeeper --keys=FOO $GOFILE'' @ [newline]
                  @ ''x := bar'' @ [newline])]\<rparr>"
proof -
  have k: "keyNames ex_flags = ''FOO''" "outputFlag ex_flags = []" "paths ex_flags = [''f.go'']"
    by (simp_all add: ex_flags_def)
  have d: "isDir ex_os ''f.go'' = Some False" by (simp add: ex_os_def)
  have f: "files ex_os ''f.go.safekeeper'' = Some ''x := ENV_FOO''"
    by (simp add: ex_os_def)
  have w: "writable ex_os ''f.go''" by (simp add: ex_os_def)
  have dl: "directiveLine ex_flags = ''//go:generate safekeeper --keys=FOO $GOFILE''"
    by (simp add: directiveLine_def ex_flags_def)
  show ?thesis
    unfolding main_def k
    by (subst run_file [OF resolved_ex d]) (simp add: f fits_ex w dl body_ex)
qed

lemma run_ok:
  assumes "failure (run w g keys out inputPaths) = None"
  shows "\<exists>p content. inputPaths = [p] \<and> resolved w keys \<and> isDir w p = Some False
           \<and> files w (p @ ''.safekeeper'') = Some content \<and> fits content
           \<and> writable w (if out = [] then p else out)
           \<and> run w g keys out inputPaths =
               \<lparr>failure = None, reads = [p @ ''.safekeeper''],
                writes = [(if out = [] then p else out,
                           warningLine @ [newline] @ directiveLine g @ [newline]
                           @ body (setupReplacers w (keyValuesOf w keys)) content)]\<rparr>"
proof -
  have r: "resolved w keys"
  proof (rule ccontr)
    assume "\<not> resolved w keys"
    then obtain k where "loadKeyValues w (Split keys CHR '','') = Inl (MissingEnvironmentVariable k)"
      using loadKeyValues_unresolved by blast
    then have "run w g keys out inputPaths = fatal (MissingEnvironmentVariable k) []"
      by (simp add: run_def)
    with assms show False by (simp add: fatal_def)
  qed
  have "\<exists>p. inputPaths = [p] \<and> isDir w p = Some False"
  proof (rule ccontr)
    assume "\<not> (\<exists>p. inputPaths = [p] \<and> isDir w p = Some False)"
    then obtain e where "run w g keys out inputPaths = fatal e []"
      using run_not_file by blast
    with assms show False by (simp add: fatal_def)
  qed
  then obtain p where p: "inputPaths = [p]" and d: "isDir w p = Some False" by blast
  note rf = run_file [OF r d, of g out]
  from assms p rf obtain content where c: "files w (p @ ''.safekeeper'') = Some content"
    by (cases "files w (p @ ''.safekeeper'')") (auto simp: fatal_def)
  from assms p rf c have f: "fits content"
    by (auto simp: fatal_def split: if_splits)
  from assms p rf c f have wr: "writable w (if out = [] then p else out)"
    by (auto simp: fatal_def split: if_splits)
  from rf c f wr p r d show ?thesis by simp
qed

subsection \<open>The header\<close>

text \<open>
  C1, as the code has it. A successful run writes one file: the warning line, then the
  directive line, then the body. The directive line reproduces \<open>--keys\<close> and, when set,
  \<open>--output\<close>, and ends with \<open>$GOFILE\<close> on the same line, so the header has two lines and
  the body starts on line 3 (neither header line contains a newline unless a flag does).
\<close>

theorem header_two_lines:
  assumes "failure (main w g) = None"
  shows "\<exists>dest p content.
           paths g = [p] \<and> files w (p @ ''.safekeeper'') = Some content
           \<and> writes (main w g)
               = [(dest, warningLine @ [newline] @ directiveLine g @ [newline]
                         @ body (setupReplacers w (keyValuesOf w (keyNames g))) content)]
           \<and> newline \<notin> set warningLine
           \<and> (newline \<notin> set (keyNames g) \<and> newline \<notin> set (outputFlag g)
                \<longrightarrow> newline \<notin> set (directiveLine g))
           \<and> directiveLine g
               = ''//go:generate safekeeper --keys='' @ keyNames g
                 @ (if outputFlag g \<noteq> [] then '' --output='' @ outputFlag g else [])
                 @ '' $GOFILE''"
proof -
  from assms have "failure (run w g (keyNames g) (outputFlag g) (paths g)) = None"
    by (simp add: main_def)
  from run_ok [OF this] obtain p content where
    "paths g = [p]" "files w (p @ ''.safekeeper'') = Some content"
    "run w g (keyNames g) (outputFlag g) (paths g) =
       \<lparr>failure = None, reads = [p @ ''.safekeeper''],
        writes = [(if outputFlag g = [] then p else outputFlag g,
                   warningLine @ [newline] @ directiveLine g @ [newline]
                   @ body (setupReplacers w (keyValuesOf w (keyNames g))) content)]\<rparr>"
    by blast
  moreover have "newline \<notin> set warningLine"
    by (simp add: warningLine_def)
  moreover have "newline \<notin> set (keyNames g) \<and> newline \<notin> set (outputFlag g)
                \<longrightarrow> newline \<notin> set (directiveLine g)"
    by (simp add: directiveLine_def)
  ultimately show ?thesis
    by (simp add: main_def directiveLine_def)
qed

theorem header_two_lines_witness:
  "failure (main ex_os ex_flags) = None
   \<and> (\<exists>dest p content.
           paths ex_flags = [p] \<and> files ex_os (p @ ''.safekeeper'') = Some content
           \<and> writes (main ex_os ex_flags)
               = [(dest, warningLine @ [newline] @ directiveLine ex_flags @ [newline]
                         @ body (setupReplacers ex_os (keyValuesOf ex_os (keyNames ex_flags))) content)])"
proof -
  have h: "failure (main ex_os ex_flags) = None" by (simp add: main_ex)
  from header_two_lines [OF h] h show ?thesis by blast
qed

text \<open>
  C1 as stated (a header of three lines, the body from line 4) fails: for the template
  \<open>x := ENV_FOO\<close> the output has three lines in all, and line 3 is the body line.
\<close>

theorem header_three_lines_counterexample:
  "writes (main ex_os ex_flags)
     = [(''f.go'', warningLine @ [newline]
                  @ ''//go:generate safekeeper --keys=FOO $GOFILE'' @ [newline]
                  @ ''x := bar'' @ [newline])]
   \<and> Split (warningLine @ [newline]
            @ ''//go:generate safekeeper --keys=FOO $GOFILE'' @ [newline]
            @ ''x := bar'' @ [newline]) newline
     = [warningLine, ''//go:generate safekeeper --keys=FOO $GOFILE'', ''x := bar'', []]
   \<and> body (setupReplacers ex_os (keyValuesOf ex_os ''FOO'')) ''x := ENV_FOO''
     = ''x := bar'' @ [newline]"
  by (simp add: main_ex body_ex) (simp add: warningLine_def)

subsection \<open>Keys with an empty name\<close>

lemma Split_not_Nil: "Split s c \<noteq> []"
  by (cases s) (auto split: list.splits)

lemma hd_Split_Nil: "hd (Split s c) = [] \<longleftrightarrow> s = [] \<or> hd s = c"
  by (cases s) (auto split: list.splits)

lemma tl_Split_Nil:
  "[] \<in> set (tl (Split s c)) \<longleftrightarrow> (s \<noteq> [] \<and> last s = c) \<or> sublist [c, c] s"
proof (induction s)
  case Nil
  then show ?case by simp
next
  case (Cons x xs)
  show ?case
  proof (cases "x = c")
    case True
    have a: "[] \<in> set (Split xs c) \<longleftrightarrow> hd (Split xs c) = [] \<or> [] \<in> set (tl (Split xs c))"
      using Split_not_Nil [of xs c] by (cases "Split xs c") auto
    have b: "tl (Split (x # xs) c) = Split xs c"
      using True by simp
    have d: "last (x # xs) = c \<longleftrightarrow> xs = [] \<or> last xs = c"
      using True by simp
    have e: "prefix [c, c] (x # xs) \<longleftrightarrow> xs \<noteq> [] \<and> hd xs = c"
      using True by (cases xs) auto
    have f: "sublist [c, c] (x # xs) \<longleftrightarrow> prefix [c, c] (x # xs) \<or> sublist [c, c] xs"
      by (rule sublist_Cons_right)
    have "[] \<in> set (tl (Split (x # xs) c))
            \<longleftrightarrow> (xs = [] \<or> hd xs = c) \<or> (xs \<noteq> [] \<and> last xs = c) \<or> sublist [c, c] xs"
      unfolding b a hd_Split_Nil Cons.IH by blast
    also have "\<dots> \<longleftrightarrow> (x # xs \<noteq> [] \<and> last (x # xs) = c) \<or> sublist [c, c] (x # xs)"
      unfolding d e f by auto
    finally show ?thesis .
  next
    case False
    then have "tl (Split (x # xs) c) = tl (Split xs c)"
      using Split_not_Nil [of xs c] by (cases "Split xs c") auto
    with False Cons.IH show ?thesis
      by (auto simp: sublist_Cons_right)
  qed
qed

lemma Split_has_empty:
  "[] \<in> set (Split s c) \<longleftrightarrow> s = [] \<or> prefix [c] s \<or> suffix [c] s \<or> sublist [c, c] s"
proof -
  have "[] \<in> set (Split s c) \<longleftrightarrow> hd (Split s c) = [] \<or> [] \<in> set (tl (Split s c))"
    using Split_not_Nil [of s c] by (cases "Split s c") auto
  moreover have "prefix [c] s \<longleftrightarrow> s \<noteq> [] \<and> hd s = c"
    by (cases s) auto
  moreover have "suffix [c] s \<longleftrightarrow> s \<noteq> [] \<and> last s = c"
    by (cases s rule: rev_cases) (auto simp: suffix_def)
  ultimately show ?thesis
    by (auto simp: hd_Split_Nil tl_Split_Nil)
qed

text \<open>
  C9. The comma-split of the \<open>--keys\<close> value has an empty element exactly when the value
  is empty or has a leading, trailing or doubled comma; the lookup of the empty name yields
  the empty string, so such a run aborts with \<open>MissingEnvironmentVariable\<close>, having read
  and written nothing.
\<close>

theorem empty_key_aborts:
  "([] \<in> set (Split keys CHR '','')
      \<longleftrightarrow> keys = [] \<or> prefix '','' keys \<or> suffix '','' keys \<or> sublist '',,'' keys)
   \<and> Getenv w [] = []
   \<and> ([] \<in> set (Split keys CHR '','')
        \<longrightarrow> (\<exists>k. run w g keys out inputPaths
                  = \<lparr>failure = Some (MissingEnvironmentVariable k), reads = [], writes = []\<rparr>))"
proof -
  have a: "[] \<in> set (Split keys CHR '','')
      \<longleftrightarrow> keys = [] \<or> prefix '','' keys \<or> suffix '','' keys \<or> sublist '',,'' keys"
    by (rule Split_has_empty)
  have b: "Getenv w [] = []" by (simp add: Getenv_def)
  have c: "\<exists>k. run w g keys out inputPaths
                  = \<lparr>failure = Some (MissingEnvironmentVariable k), reads = [], writes = []\<rparr>"
    if "[] \<in> set (Split keys CHR '','')"
  proof -
    from that b have "\<not> resolved w keys"
      by (auto simp: resolved_def keyList_def)
    then obtain k where "loadKeyValues w (Split keys CHR '','') = Inl (MissingEnvironmentVariable k)"
      using loadKeyValues_unresolved by blast
    then show ?thesis
      by (auto simp: run_def fatal_def)
  qed
  from a b c show ?thesis by blast
qed

theorem empty_key_aborts_witness:
  "[] \<in> set (Split ''FOO,'' CHR '','')
   \<and> (\<exists>k. run ex_os ex_flags ''FOO,'' [] [''f.go'']
            = \<lparr>failure = Some (MissingEnvironmentVariable k), reads = [], writes = []\<rparr>)"
proof -
  have h: "[] \<in> set (Split ''FOO,'' CHR '','')" by simp
  with empty_key_aborts [of "''FOO,''" ex_os ex_flags "[]" "[''f.go'']"] show ?thesis
    by blast
qed

subsection \<open>The input paths\<close>

text \<open>
  C6. Unless the input is exactly one path that \<open>os.Stat\<close> reports as a file, the run
  fails and neither reads nor writes a file: with no path, several paths or a directory the
  failure is \<open>UnsupportedInput\<close> (when every key has a value; a missing key is reported
  first), and a path that cannot be inspected is reported as such.
\<close>

theorem unsupported_input_rejected:
  assumes "\<not> (\<exists>p. inputPaths = [p] \<and> isDir w p = Some False)"
  shows "\<exists>e. run w g keys out inputPaths = \<lparr>failure = Some e, reads = [], writes = []\<rparr>
           \<and> (e = UnsupportedInput \<or> (\<exists>k. e = MissingEnvironmentVariable k)
                \<or> (\<exists>p. inputPaths = [p] \<and> isDir w p = None \<and> e = StatFailure p))
           \<and> (resolved w keys \<and> (\<forall>p. inputPaths = [p] \<longrightarrow> isDir w p = Some True)
                \<longrightarrow> e = UnsupportedInput)"
proof (cases "resolved w keys")
  case False
  then obtain k where "loadKeyValues w (Split keys CHR '','') = Inl (MissingEnvironmentVariable k)"
    using loadKeyValues_unresolved by blast
  then have "run w g keys out inputPaths
               = \<lparr>failure = Some (MissingEnvironmentVariable k), reads = [], writes = []\<rparr>"
    by (simp add: run_def fatal_def)
  with False show ?thesis by blast
next
  case True
  then have l: "loadKeyValues w (Split keys CHR '','') = Inr (keyValuesOf w keys)"
    by (simp add: loadKeyValues_resolved keyValuesOf_def)
  show ?thesis
  proof (cases "\<exists>p. inputPaths = [p]")
    case False
    then have "run w g keys out inputPaths = \<lparr>failure = Some UnsupportedInput, reads = [], writes = []\<rparr>"
      by (auto simp: run_def l fatal_def split: list.splits)
    then show ?thesis by blast
  next
    case one: True
    then obtain p where p: "inputPaths = [p]" by blast
    with assms have "isDir w p = None \<or> isDir w p = Some True"
      by (cases "isDir w p") auto
    then show ?thesis
    proof
      assume n: "isDir w p = None"
      then have "run w g keys out inputPaths = \<lparr>failure = Some (StatFailure p), reads = [], writes = []\<rparr>"
        by (simp add: run_def l p isFile_def fatal_def)
      with p n show ?thesis by auto
    next
      assume "isDir w p = Some True"
      then have "run w g keys out inputPaths = \<lparr>failure = Some UnsupportedInput, reads = [], writes = []\<rparr>"
        by (simp add: run_def l p isFile_def fatal_def)
      then show ?thesis by blast
    qed
  qed
qed

theorem unsupported_input_rejected_witness:
  "\<not> (\<exists>p. [''a.go'', ''b.go''] = [p] \<and> isDir ex_os p = Some False)
   \<and> run ex_os ex_flags ''FOO'' [] [''a.go'', ''b.go'']
       = \<lparr>failure = Some UnsupportedInput, reads = [], writes = []\<rparr>"
proof -
  have h: "\<not> (\<exists>p. [''a.go'', ''b.go''] = [p] \<and> isDir ex_os p = Some False)" by simp
  from unsupported_input_rejected [OF h, of ex_flags "''FOO''" "[]"] resolved_ex h
  show ?thesis by auto
qed

subsection \<open>The template file\<close>

lemma Getenv_cong: "environ w' = environ w \<Longrightarrow> Getenv w' = Getenv w"
  by (intro ext) (simp add: Getenv_def)

lemma loadLoop_cong: "environ w' = environ w \<Longrightarrow> loadLoop w' ks m = loadLoop w ks m"
  by (induction ks arbitrary: m) (simp_all add: Getenv_cong [of w' w] Let_def)

lemma loadKeyValues_cong:
  "environ w' = environ w \<Longrightarrow> loadKeyValues w' = loadKeyValues w"
  by (intro ext) (simp add: loadKeyValues_def loadLoop_cong [of w' w])

lemma run_single_cases:
  obtains (missing) k where "\<not> resolved w keys"
      "run w g keys out [p] = fatal (MissingEnvironmentVariable k) []"
  | (nofile) e where "isDir w p \<noteq> Some False" "run w g keys out [p] = fatal e []"
  | (regular) "resolved w keys" "isDir w p = Some False"
proof (cases "resolved w keys")
  case False
  then obtain k where "loadKeyValues w (Split keys CHR '','') = Inl (MissingEnvironmentVariable k)"
    using loadKeyValues_unresolved by blast
  then have "run w g keys out [p] = fatal (MissingEnvironmentVariable k) []"
    by (simp add: run_def)
  with False show ?thesis by (rule missing)
next
  case r: True
  show ?thesis
  proof (cases "isDir w p = Some False")
    case True
    with r show ?thesis by (rule regular)
  next
    case False
    then have "\<not> (\<exists>q. [p] = [q] \<and> isDir w q = Some False)" by simp
    then obtain e where "run w g keys out [p] = fatal e []"
      using run_not_file by blast
    with False show ?thesis by (rule nofile)
  qed
qed

text \<open>
  C7. For the input path \<open>p\<close> the only file a run reads is \<open>p.safekeeper\<close>. If that file
  cannot be opened the run fails and writes nothing; the failure is \<open>TemplateNotFound\<close>
  once the keys have their values and \<open>p\<close> is a file (an earlier failure is reported
  otherwise). If it can be opened, the run reads it, does not report \<open>TemplateNotFound\<close>,
  and the output is the header followed by the body computed from the content of that very
  file (or the run stops with the scanner's error when a line does not fit). Nothing else in
  the file system influences the run.
\<close>

theorem template_is_path_plus_suffix:
  "set (reads (run w g keys out [p])) \<subseteq> {p @ ''.safekeeper''}
   \<and> (files w (p @ ''.safekeeper'') = None \<longrightarrow>
        failure (run w g keys out [p]) \<noteq> None
        \<and> reads (run w g keys out [p]) = []
        \<and> writes (run w g keys out [p]) = []
        \<and> (resolved w keys \<and> isDir w p = Some False \<longrightarrow>
             failure (run w g keys out [p]) = Some (TemplateNotFound (p @ ''.safekeeper''))))
   \<and> (\<forall>content. files w (p @ ''.safekeeper'') = Some content
          \<and> resolved w keys \<and> isDir w p = Some False \<longrightarrow>
        reads (run w g keys out [p]) = [p @ ''.safekeeper'']
        \<and> failure (run w g keys out [p]) \<noteq> Some (TemplateNotFound (p @ ''.safekeeper''))
        \<and> (fits content \<and> writable w (if out = [] then p else out) \<longrightarrow>
             run w g keys out [p] =
               \<lparr>failure = None, reads = [p @ ''.safekeeper''],
                writes = [(if out = [] then p else out,
                           warningLine @ [newline] @ directiveLine g @ [newline]
                           @ body (setupReplacers w (keyValuesOf w keys)) content)]\<rparr>)
        \<and> (\<not> fits content \<longrightarrow>
             run w g keys out [p] =
               \<lparr>failure = Some ReadFailure, reads = [p @ ''.safekeeper''], writes = []\<rparr>))
   \<and> (\<forall>w'. environ w' = environ w \<and> isDir w' = isDir w \<and> writable w' = writable w
             \<and> mapRange w' = mapRange w
             \<and> files w' (p @ ''.safekeeper'') = files w (p @ ''.safekeeper'')
          \<longrightarrow> run w' g keys out [p] = run w g keys out [p])"
proof -
  have a: "set (reads (run w g keys out [p])) \<subseteq> {p @ ''.safekeeper''}"
  proof (cases rule: run_single_cases [of w keys g out p])
    case (missing k)
    then show ?thesis by (simp add: fatal_def)
  next
    case (nofile e)
    then show ?thesis by (simp add: fatal_def)
  next
    case regular
    from run_file [OF regular, of g out] show ?thesis
      by (simp add: fatal_def split: option.splits)
  qed
  have b: "failure (run w g keys out [p]) \<noteq> None
        \<and> reads (run w g keys out [p]) = []
        \<and> writes (run w g keys out [p]) = []
        \<and> (resolved w keys \<and> isDir w p = Some False \<longrightarrow>
             failure (run w g keys out [p]) = Some (TemplateNotFound (p @ ''.safekeeper'')))"
    if nf: "files w (p @ ''.safekeeper'') = None"
  proof (cases rule: run_single_cases [of w keys g out p])
    case (missing k)
    then show ?thesis by (simp add: fatal_def)
  next
    case (nofile e)
    then show ?thesis by (simp add: fatal_def)
  next
    case regular
    from run_file [OF regular, of g out] nf show ?thesis
      by (simp add: fatal_def)
  qed
  have d: "reads (run w g keys out [p]) = [p @ ''.safekeeper'']
        \<and> failure (run w g keys out [p]) \<noteq> Some (TemplateNotFound (p @ ''.safekeeper''))
        \<and> (fits content \<and> writable w (if out = [] then p else out) \<longrightarrow>
             run w g keys out [p] =
               \<lparr>failure = None, reads = [p @ ''.safekeeper''],
                writes = [(if out = [] then p else out,
                           warningLine @ [newline] @ directiveLine g @ [newline]
                           @ body (setupReplacers w (keyValuesOf w keys)) content)]\<rparr>)
        \<and> (\<not> fits content \<longrightarrow>
             run w g keys out [p] =
               \<lparr>failure = Some ReadFailure, reads = [p @ ''.safekeeper''], writes = []\<rparr>)"
    if h: "files w (p @ ''.safekeeper'') = Some content
          \<and> resolved w keys \<and> isDir w p = Some False" for content
  proof -
    from h have r: "resolved w keys" and i: "isDir w p = Some False"
      and f: "files w (p @ ''.safekeeper'') = Some content" by simp_all
    from run_file [OF r i, of g out] f show ?thesis
      by (simp add: fatal_def)
  qed
  have c: "run w' g keys out [p] = run w g keys out [p]"
    if eq: "environ w' = environ w \<and> isDir w' = isDir w \<and> writable w' = writable w
        \<and> mapRange w' = mapRange w
        \<and> files w' (p @ ''.safekeeper'') = files w (p @ ''.safekeeper'')" for w'
  proof -
    from eq have "environ w' = environ w" by simp
    then have e1: "loadKeyValues w' = loadKeyValues w"
      by (rule loadKeyValues_cong)
    from eq have e2: "isFile w' = isFile w"
      by (intro ext) (simp add: isFile_def)
    from eq have e5: "setupReplacers w' = setupReplacers w"
      by (intro ext) (simp add: setupReplacers_def)
    from eq have e6: "openTemplateFile w' p = openTemplateFile w p"
      by (simp add: openTemplateFile_def)
    have e3: "substituteValues w' p = substituteValues w p"
      unfolding substituteValues_def e5 e6 by (rule refl)
    from eq have e4: "writable w' = writable w" by simp
    show ?thesis
      unfolding run_def list.case e1 e2 e3 e4 by (rule refl)
  qed
  from a b c d show ?thesis by blast
qed

theorem template_is_path_plus_suffix_witness:
  "files (ex_os\<lparr>files := Map.empty\<rparr>) (''f.go'' @ ''.safekeeper'') = None
   \<and> resolved (ex_os\<lparr>files := Map.empty\<rparr>) ''FOO''
   \<and> isDir (ex_os\<lparr>files := Map.empty\<rparr>) ''f.go'' = Some False
   \<and> failure (run (ex_os\<lparr>files := Map.empty\<rparr>) ex_flags ''FOO'' [] [''f.go''])
       = Some (TemplateNotFound ''f.go.safekeeper'')
   \<and> writes (run (ex_os\<lparr>files := Map.empty\<rparr>) ex_flags ''FOO'' [] [''f.go'']) = []
   \<and> files ex_os (''f.go'' @ ''.safekeeper'') = Some ''x := ENV_FOO''
   \<and> resolved ex_os ''FOO'' \<and> isDir ex_os ''f.go'' = Some False
   \<and> fits ''x := ENV_FOO'' \<and> writable ex_os ''f.go''
   \<and> run ex_os ex_flags ''FOO'' [] [''f.go''] =
       \<lparr>failure = None, reads = [''f.go.safekeeper''],
        writes = [(''f.go'', warningLine @ [newline]
                  @ ''//go:generate safekeeper --keys=FOO $GOFILE'' @ [newline]
                  @ ''x := bar'' @ [newline])]\<rparr>"
proof -
  let ?w = "ex_os\<lparr>files := Map.empty\<rparr>"
  have h1: "files ?w (''f.go'' @ ''.safekeeper'') = None" by simp
  have h2: "resolved ?w ''FOO''"
    by (simp add: resolved_def keyList_def Getenv_def ex_os_def)
  have h3: "isDir ?w ''f.go'' = Some False" by (simp add: ex_os_def)
  from template_is_path_plus_suffix [of ?w ex_flags "''FOO''" "[]" "''f.go''"]
  have "files ?w (''f.go'' @ ''.safekeeper'') = None \<longrightarrow>
        failure (run ?w ex_flags ''FOO'' [] [''f.go'']) \<noteq> None
        \<and> reads (run ?w ex_flags ''FOO'' [] [''f.go'']) = []
        \<and> writes (run ?w ex_flags ''FOO'' [] [''f.go'']) = []
        \<and> (resolved ?w ''FOO'' \<and> isDir ?w ''f.go'' = Some False \<longrightarrow>
             failure (run ?w ex_flags ''FOO'' [] [''f.go''])
               = Some (TemplateNotFound (''f.go'' @ ''.safekeeper'')))"
    by blast
  with h1 h2 h3 have n1: "failure (run ?w ex_flags ''FOO'' [] [''f.go''])
               = Some (TemplateNotFound (''f.go'' @ ''.safekeeper''))"
    and n2: "writes (run ?w ex_flags ''FOO'' [] [''f.go'']) = []"
    by blast+
  have k1: "files ex_os (''f.go'' @ ''.safekeeper'') = Some ''x := ENV_FOO''"
    by (simp add: ex_os_def)
  have k2: "resolved ex_os ''FOO''" by (rule resolved_ex)
  have k3: "isDir ex_os ''f.go'' = Some False" by (simp add: ex_os_def)
  have k4: "fits ''x := ENV_FOO''" by (rule fits_ex)
  have k5: "writable ex_os (if [] = [] then ''f.go'' else [])" by (simp add: ex_os_def)
  note t = template_is_path_plus_suffix [of ex_os ex_flags "''FOO''" "[]" "''f.go''"]
  note t3 = t [THEN conjunct2, THEN conjunct2, THEN conjunct1, THEN spec, THEN mp,
      OF conjI [OF k1 conjI [OF k2 k3]]]
  note t4 = t3 [THEN conjunct2, THEN conjunct2, THEN conjunct1, THEN mp, OF conjI [OF k4 k5]]
  from t4 have p: "run ex_os ex_flags ''FOO'' [] [''f.go''] =
       \<lparr>failure = None, reads = [''f.go.safekeeper''],
        writes = [(''f.go'', warningLine @ [newline]
                  @ ''//go:generate safekeeper --keys=FOO $GOFILE'' @ [newline]
                  @ ''x := bar'' @ [newline])]\<rparr>"
    by (simp add: body_ex directiveLine_def ex_flags_def)
  from k5 have k5': "writable ex_os ''f.go''" by simp
  from h1 h2 h3 n1 n2 k1 k2 k3 k4 k5' p show ?thesis by simp
qed

subsection \<open>Line terminators\<close>

lemma last_chunks:
  "last (hdr @ [newline] @ concat (map (\<lambda>l. f l @ [newline]) ls)) = newline"
  by (induction ls rule: rev_induct) simp_all

lemma rawLines_unterminated:
  "content \<noteq> [] \<Longrightarrow> last content \<noteq> newline \<Longrightarrow> rawLines (content @ [newline]) = rawLines content"
proof (induction content rule: rawLines.induct)
  case (1 data)
  let ?P = "\<lambda>c. c \<noteq> newline"
  show ?case
  proof (cases "newline \<in> set data")
    case False
    then have all: "\<And>x. x \<in> set data \<Longrightarrow> x \<noteq> newline" by auto
    have t1: "takeWhile ?P (data @ [newline]) = data"
      using all by (simp add: takeWhile_append2)
    have d1: "dropWhile ?P (data @ [newline]) = [newline]"
      using all by (simp add: dropWhile_append2)
    have t2: "takeWhile ?P data = data" using all by simp
    have d2: "dropWhile ?P data = []" using all by simp
    have "rawLines (data @ [newline]) = [data]"
      by (subst rawLines_Cons) (simp_all add: t1 d1 rawLines_Nil)
    moreover have "rawLines data = [data]"
      using "1.prems"(1) by (subst rawLines_Cons) (simp_all add: t2 d2 rawLines_Nil)
    ultimately show ?thesis by simp
  next
    case True
    then have "\<exists>x \<in> set data. \<not> ?P x" by auto
    then have tw: "takeWhile ?P (data @ [newline]) = takeWhile ?P data"
      and dw: "dropWhile ?P (data @ [newline]) = dropWhile ?P data @ [newline]"
      by (simp_all add: takeWhile_append1 dropWhile_append1)
    define rest where "rest = drop 1 (dropWhile ?P data)"
    from True have dne: "dropWhile ?P data \<noteq> []"
      by (simp add: dropWhile_eq_Nil_conv)
    then obtain d ds where dd: "dropWhile ?P data = d # ds" by (cases "dropWhile ?P data") auto
    then have d: "d = newline" using hd_dropWhile [of ?P data] by auto
    have app: "data = takeWhile ?P data @ dropWhile ?P data" by simp
    have rne: "rest \<noteq> []"
    proof
      assume "rest = []"
      with dd d have "dropWhile ?P data = [newline]" by (simp add: rest_def)
      with app have "data = takeWhile ?P data @ [newline]" by simp
      then have "last data = newline" by (metis last_snoc)
      with "1.prems" show False by simp
    qed
    have "data = takeWhile ?P data @ [d] @ rest"
      using app dd by (simp add: rest_def)
    with rne have "last data = last rest"
      by (metis append_assoc last_appendR)
    with "1.prems" have lr: "last rest \<noteq> newline" by simp
    from "1.IH" [OF "1.prems"(1), folded rest_def, OF rne lr]
    have ih: "rawLines (rest @ [newline]) = rawLines rest" .
    have "drop 1 (dropWhile ?P (data @ [newline])) = rest @ [newline]"
      using dd by (simp add: dw rest_def)
    then have "rawLines (data @ [newline]) = takeWhile ?P data # rawLines (rest @ [newline])"
      by (subst rawLines_Cons) (simp_all add: tw)
    moreover have "rawLines data = takeWhile ?P data # rawLines rest"
      using "1.prems"(1) unfolding rest_def by (rule rawLines_Cons)
    ultimately show ?thesis using ih by simp
  qed
qed

text \<open>
  C10. The body is the concatenation, over the kept lines, of the substituted line followed
  by one newline, so the output ends with a newline; a template whose last line has no
  newline is read as the same lines as the template with that newline added, so its last
  line too is written with one.
\<close>

theorem every_body_line_newline_terminated:
  assumes "failure (run w g keys out inputPaths) = None"
  shows "\<exists>dest src p content.
           inputPaths = [p] \<and> files w (p @ ''.safekeeper'') = Some content
           \<and> writes (run w g keys out inputPaths) = [(dest, src)]
           \<and> src = warningLine @ [newline] @ directiveLine g @ [newline]
                   @ concat (map (\<lambda>l. substituted (setupReplacers w (keyValuesOf w keys)) l
                                       @ [newline])
                              (keptLines content))
           \<and> src \<noteq> [] \<and> last src = newline
           \<and> (content \<noteq> [] \<and> last content \<noteq> newline \<longrightarrow>
                keptLines (content @ [newline]) = keptLines content)"
proof -
  from run_ok [OF assms] obtain p content where
    p: "inputPaths = [p]" and c: "files w (p @ ''.safekeeper'') = Some content" and
    r: "run w g keys out inputPaths =
       \<lparr>failure = None, reads = [p @ ''.safekeeper''],
        writes = [(if out = [] then p else out,
                   warningLine @ [newline] @ directiveLine g @ [newline]
                   @ body (setupReplacers w (keyValuesOf w keys)) content)]\<rparr>"
    by blast
  let ?rs = "setupReplacers w (keyValuesOf w keys)"
  let ?src = "warningLine @ [newline] @ directiveLine g @ [newline]
                   @ concat (map (\<lambda>l. substituted ?rs l @ [newline]) (keptLines content))"
  have l: "last ?src = newline"
    using last_chunks [of "warningLine @ [newline] @ directiveLine g" "substituted ?rs"
        "keptLines content"] by simp
  have k: "content \<noteq> [] \<and> last content \<noteq> newline \<longrightarrow>
                keptLines (content @ [newline]) = keptLines content"
    by (simp add: keptLines_def rawLines_unterminated)
  have w: "writes (run w g keys out inputPaths) = [(if out = [] then p else out, ?src)]"
    by (simp add: r body_def)
  have ne: "?src \<noteq> []" by simp
  from p c w l k ne show ?thesis by blast
qed

theorem every_body_line_newline_terminated_witness:
  "failure (run ex_os ex_flags ''FOO'' [] [''f.go'']) = None
   \<and> writes (run ex_os ex_flags ''FOO'' [] [''f.go''])
       = [(''f.go'', warningLine @ [newline]
                  @ ''//go:generate safekeeper --keys=FOO $GOFILE'' @ [newline]
                  @ ''x := bar'' @ [newline])]
   \<and> last ''x := ENV_FOO'' \<noteq> newline
   \<and> (\<exists>dest src. writes (run ex_os ex_flags ''FOO'' [] [''f.go'']) = [(dest, src)]
         \<and> last src = newline)"
proof -
  have m: "run ex_os ex_flags ''FOO'' [] [''f.go''] = main ex_os ex_flags"
    by (simp add: main_def ex_flags_def)
  have h: "failure (run ex_os ex_flags ''FOO'' [] [''f.go'']) = None"
    by (simp add: m main_ex)
  from every_body_line_newline_terminated [OF h] have
    "\<exists>dest src. writes (run ex_os ex_flags ''FOO'' [] [''f.go'']) = [(dest, src)]
         \<and> last src = newline"
    by blast
  with h show ?thesis by (simp add: m main_ex)
qed

subsection \<open>Occurrences of a word after a replacement\<close>

lemma overlapsI_sublist1: "sublist v t \<Longrightarrow> overlaps v t"
  by (simp add: overlaps_def)

lemma overlapsI_sublist2: "sublist t v \<Longrightarrow> overlaps v t"
  by (simp add: overlaps_def)

lemma overlapsI_suffix_prefix: "x \<noteq> [] \<Longrightarrow> suffix x v \<Longrightarrow> prefix x t \<Longrightarrow> overlaps v t"
  by (auto simp: overlaps_def)

lemma overlapsI_prefix_suffix: "x \<noteq> [] \<Longrightarrow> prefix x v \<Longrightarrow> suffix x t \<Longrightarrow> overlaps v t"
  by (auto simp: overlaps_def)


text \<open>A nonempty word at the start of \<open>v @ X\<close>, with \<open>v\<close> nonempty, overlaps \<open>v\<close>
  as soon as it is the end of \<open>T\<close>.\<close>

lemma prefix_append_overlaps:
  assumes "tok \<noteq> []" "v \<noteq> []" "suffix tok T" "prefix tok (v @ X)"
  shows "overlaps v T"
proof -
  from assms(4) have "prefix tok v \<or> prefix v tok"
    by (metis prefix_append prefix_same_cases prefixI prefix_order.order_refl prefix_def)
  then show ?thesis
  proof
    assume "prefix tok v"
    with assms(1,3) show ?thesis
      by (auto intro: overlapsI_prefix_suffix)
  next
    assume "prefix v tok"
    then have "sublist v tok" by (rule prefix_imp_sublist)
    moreover from assms(3) have "sublist tok T" by (rule suffix_imp_sublist)
    ultimately have "sublist v T" by (rule sublist_order.order_trans)
    then show ?thesis by (rule overlapsI_sublist1)
  qed
qed

lemma Replace_prefix_back:
  "new \<noteq> [] \<Longrightarrow> \<not> overlaps new T \<Longrightarrow> suffix tok T \<Longrightarrow>
   prefix tok (Replace old new s) \<Longrightarrow> prefix tok s"
proof (induction old new s arbitrary: tok rule: Replace.induct)
  case (1 old new)
  then show ?case by simp
next
  case (2 old new c cs)
  show ?case
  proof (cases "tok = []")
    case True
    then show ?thesis by simp
  next
    case ne: False
    show ?thesis
    proof (cases "old \<noteq> [] \<and> prefix old (c # cs)")
      case True
      then have "Replace old new (c # cs) = new @ Replace old new (drop (length old) (c # cs))"
        by simp
      with "2.prems"(4) have "prefix tok (new @ Replace old new (drop (length old) (c # cs)))"
        by simp
      with ne "2.prems"(1,3) have "overlaps new T"
        by (rule prefix_append_overlaps)
      with "2.prems"(2) show ?thesis by simp
    next
      case False
      then have eq: "Replace old new (c # cs) = c # Replace old new cs"
        by auto
      from ne obtain d tok' where tok: "tok = d # tok'"
        by (cases tok) auto
      from "2.prems"(4) eq tok have dc: "d = c" and p: "prefix tok' (Replace old new cs)"
        by auto
      from "2.prems"(3) tok have "suffix tok' T"
        by (metis suffix_ConsD)
      with "2.IH"(2) [OF False "2.prems"(1,2) _ p] have "prefix tok' cs"
        by simp
      with tok dc show ?thesis by simp
    qed
  qed
qed

lemma sublist_append_overlaps:
  assumes "new \<noteq> []" "\<not> overlaps new tok" "\<not> sublist tok X"
  shows "\<not> sublist tok (new @ X)"
proof
  assume "sublist tok (new @ X)"
  then consider "sublist tok new" | "sublist tok X"
    | xs1 xs2 where "tok = xs1 @ xs2" "suffix xs1 new" "prefix xs2 X"
    by (auto simp: sublist_append)
  then show False
  proof cases
    case 1
    then have "overlaps new tok" by (rule overlapsI_sublist2)
    with assms(2) show False by simp
  next
    case 2
    with assms(3) show False by simp
  next
    case 3
    show False
    proof (cases "xs1 = []")
      case True
      with 3 have "sublist tok X" by auto
      with assms(3) show False by simp
    next
      case False
      moreover from 3(1) have "prefix xs1 tok" by simp
      ultimately have "overlaps new tok"
        using 3(2) by (auto intro: overlapsI_suffix_prefix)
      with assms(2) show False by simp
    qed
  qed
qed

lemma Replace_keeps_absent:
  "new \<noteq> [] \<Longrightarrow> \<not> overlaps new tok \<Longrightarrow> \<not> sublist tok s \<Longrightarrow>
   \<not> sublist tok (Replace old new s)"
proof (induction old new s rule: Replace.induct)
  case (1 old new)
  then show ?case by simp
next
  case (2 old new c cs)
  show ?case
  proof (cases "old \<noteq> [] \<and> prefix old (c # cs)")
    case True
    have "sublist (drop (length old) (c # cs)) (c # cs)"
      by (rule sublist_drop)
    with "2.prems"(3) have "\<not> sublist tok (drop (length old) (c # cs))"
      by (metis sublist_order.order_trans)
    with "2.IH"(1) [OF True "2.prems"(1,2)]
    have "\<not> sublist tok (Replace old new (drop (length old) (c # cs)))"
      by simp
    with "2.prems"(1,2) have "\<not> sublist tok (new @ Replace old new (drop (length old) (c # cs)))"
      by (rule sublist_append_overlaps)
    with True show ?thesis by simp
  next
    case False
    then have eq: "Replace old new (c # cs) = c # Replace old new cs"
      by auto
    from "2.prems"(3) have "\<not> sublist tok cs"
      by (auto simp: sublist_Cons_right)
    with "2.IH"(2) [OF False "2.prems"(1,2)] have a: "\<not> sublist tok (Replace old new cs)"
      by simp
    have b: "\<not> prefix tok (c # Replace old new cs)"
    proof
      assume "prefix tok (c # Replace old new cs)"
      with eq have "prefix tok (Replace old new (c # cs))" by simp
      with "2.prems"(1,2) have "prefix tok (c # cs)"
        using Replace_prefix_back [of new tok tok old "c # cs"] by simp
      with "2.prems"(3) show False by auto
    qed
    from a b eq show ?thesis
      by (simp add: sublist_Cons_right)
  qed
qed

lemma Replace_removes:
  "new \<noteq> [] \<Longrightarrow> old \<noteq> [] \<Longrightarrow> \<not> overlaps new old \<Longrightarrow> \<not> sublist old (Replace old new s)"
proof (induction old new s rule: Replace.induct)
  case (1 old new)
  then show ?case by (cases old) auto
next
  case (2 old new c cs)
  show ?case
  proof (cases "old \<noteq> [] \<and> prefix old (c # cs)")
    case True
    with "2.IH"(1) [OF True "2.prems"]
    have "\<not> sublist old (Replace old new (drop (length old) (c # cs)))"
      by simp
    with "2.prems"(1,3) have "\<not> sublist old (new @ Replace old new (drop (length old) (c # cs)))"
      by (rule sublist_append_overlaps)
    with True show ?thesis by simp
  next
    case False
    then have eq: "Replace old new (c # cs) = c # Replace old new cs"
      by auto
    from "2.IH"(2) [OF False "2.prems"] have a: "\<not> sublist old (Replace old new cs)" .
    have b: "\<not> prefix old (c # Replace old new cs)"
    proof
      assume "prefix old (c # Replace old new cs)"
      then have p: "prefix old (Replace old new (c # cs))" unfolding eq .
      have "prefix old (c # cs)"
        by (rule Replace_prefix_back [OF "2.prems"(1) "2.prems"(3) suffix_order.refl p])
      with False "2.prems"(2) show False by blast
    qed
    show ?thesis
      unfolding eq sublist_Cons_right using a b by blast
  qed
qed

subsection \<open>The replacers of a run\<close>

lemma set_update_consistent:
  "\<forall>(k', v') \<in> set m. v' = f k' \<Longrightarrow> set (AList.update k (f k) m) = insert (k, f k) (set m)"
  by (induction m) auto

lemma set_fold_update:
  "\<forall>(k', v') \<in> set m. v' = f k' \<Longrightarrow>
   set (fold (\<lambda>k. AList.update k (f k)) ks m) = set m \<union> (\<lambda>k. (k, f k)) ` set ks"
proof (induction ks arbitrary: m)
  case Nil
  then show ?case by simp
next
  case (Cons k ks)
  have s: "set (AList.update k (f k) m) = insert (k, f k) (set m)"
    using Cons.prems by (rule set_update_consistent)
  with Cons.prems have "\<forall>(k', v') \<in> set (AList.update k (f k) m). v' = f k'"
    by auto
  from Cons.IH [OF this] s show ?case by auto
qed

lemma set_keyValuesOf: "set (keyValuesOf w keys) = (\<lambda>k. (k, Getenv w k)) ` set (keyList keys)"
  unfolding keyValuesOf_def by (subst set_fold_update) auto

lemma set_setupReplacers:
  assumes "enumerates w"
  shows "set (setupReplacers w (keyValuesOf w keys))
           = (\<lambda>k. (''ENV_'' @ k, Getenv w k)) ` set (keyList keys)"
proof -
  from assms have "mset (mapRange w (keyValuesOf w keys)) = mset (keyValuesOf w keys)"
    by (simp add: enumerates_def)
  then have "set (mapRange w (keyValuesOf w keys)) = set (keyValuesOf w keys)"
    by (rule mset_eq_setD)
  then show ?thesis
    by (auto simp: setupReplacers_def NewReplacer_def set_keyValuesOf image_iff)
qed

lemma fold_keeps_absent:
  "\<forall>r \<in> set rs. snd r \<noteq> [] \<and> \<not> overlaps (snd r) tok \<Longrightarrow> \<not> sublist tok s \<Longrightarrow>
   \<not> sublist tok (fold Replacer_Replace rs s)"
proof (induction rs arbitrary: s)
  case Nil
  then show ?case by simp
next
  case (Cons r rs)
  from Cons.prems have "\<not> sublist tok (Replace (fst r) (snd r) s)"
    by (intro Replace_keeps_absent) auto
  with Cons.prems Cons.IH [of "Replacer_Replace r s"] show ?case
    by (simp add: Replacer_Replace_def)
qed

lemma fold_removes:
  assumes "\<forall>r \<in> set rs. fst r \<noteq> [] \<and> snd r \<noteq> []"
    and "\<forall>r \<in> set rs. \<forall>r' \<in> set rs. \<not> overlaps (snd r) (fst r')"
    and "r0 \<in> set rs"
  shows "\<not> sublist (fst r0) (fold Replacer_Replace rs s)"
  using assms
proof (induction rs arbitrary: s)
  case Nil
  then show ?case by simp
next
  case (Cons r rs)
  show ?case
  proof (cases "r0 = r")
    case True
    from Cons.prems have "\<not> sublist (fst r) (Replace (fst r) (snd r) s)"
      by (intro Replace_removes) auto
    moreover from Cons.prems have "\<forall>r' \<in> set rs. snd r' \<noteq> [] \<and> \<not> overlaps (snd r') (fst r)"
      by auto
    ultimately have "\<not> sublist (fst r) (fold Replacer_Replace rs (Replace (fst r) (snd r) s))"
      by (intro fold_keeps_absent)
    then have "\<not> sublist (fst r) (fold Replacer_Replace rs (Replacer_Replace r s))"
      unfolding Replacer_Replace_def [of r s] .
    with True show ?thesis by simp
  next
    case False
    with Cons.prems have "r0 \<in> set rs" by simp
    moreover from Cons.prems have "\<forall>r \<in> set rs. fst r \<noteq> [] \<and> snd r \<noteq> []"
      and "\<forall>r \<in> set rs. \<forall>r' \<in> set rs. \<not> overlaps (snd r) (fst r')" by auto
    ultimately have "\<not> sublist (fst r0) (fold Replacer_Replace rs (Replacer_Replace r s))"
      using Cons.IH by blast
    then show ?thesis by simp
  qed
qed

lemma concat_lines_absent:
  assumes "tok \<noteq> []" "newline \<notin> set tok" "\<forall>l \<in> set ls. \<not> sublist tok (f l)"
  shows "\<not> sublist tok (concat (map (\<lambda>l. f l @ [newline]) ls))"
  using assms(3)
proof (induction ls)
  case Nil
  with assms(1) show ?case by (cases tok) auto
next
  case (Cons l ls)
  let ?rest = "concat (map (\<lambda>l. f l @ [newline]) ls)"
  from Cons have ih: "\<not> sublist tok ?rest" and l: "\<not> sublist tok (f l)" by auto
  have np: "\<not> prefix xs (newline # ys)" if "xs \<noteq> []" "set xs \<subseteq> set tok" for xs ys
    using that assms(2) by (cases xs) auto
  have b: "\<not> sublist tok (newline # ?rest)"
    using ih np [of tok ?rest] assms(1) by (simp add: sublist_Cons_right)
  have "\<not> sublist tok (f l @ (newline # ?rest))"
  proof
    assume "sublist tok (f l @ (newline # ?rest))"
    then consider "sublist tok (f l)" | "sublist tok (newline # ?rest)"
      | xs1 xs2 where "tok = xs1 @ xs2" "suffix xs1 (f l)" "prefix xs2 (newline # ?rest)"
      by (auto simp: sublist_append)
    then show False
    proof cases
      case 1
      with l show False by simp
    next
      case 2
      with b show False by simp
    next
      case 3
      show False
      proof (cases "xs2 = []")
        case True
        with 3 have "suffix tok (f l)" by simp
        then have "sublist tok (f l)" by (rule suffix_imp_sublist)
        with l show False by simp
      next
        case False
        moreover from 3(1) have "set xs2 \<subseteq> set tok" by auto
        ultimately show False using np [of xs2 ?rest] 3(3) by simp
      qed
    qed
  qed
  then show ?case by simp
qed

subsection \<open>Placeholders in the output\<close>

lemmas eval_simps =
  body_def keptLines_def substituted_def rawLines_Cons_simp rawLines_Nil dropCR_def
  isDirective_def Contains_def sublist_code setupReplacers_def keyValuesOf_def keyList_def
  Getenv_def NewReplacer_def Replacer_Replace_def fits_def MaxScanTokenSize_def resolved_def

lemma replacers_props:
  assumes "resolved w keys" "enumerates w"
  shows "\<forall>r \<in> set (setupReplacers w (keyValuesOf w keys)). fst r \<noteq> [] \<and> snd r \<noteq> []"
    and "valuesClearOf w keys toks \<Longrightarrow>
         \<forall>r \<in> set (setupReplacers w (keyValuesOf w keys)). \<forall>t \<in> set toks. \<not> overlaps (snd r) t"
  using assms
  by (auto simp: set_setupReplacers resolved_def valuesClearOf_def)

text \<open>
  C2, as the code has it. When every key has a value, the input is one file whose template
  can be read and fits the scanner, and the destination can be written, the run succeeds.
  If moreover no value of a key overlaps the placeholder of a key and no key contains a
  newline, the body of the output has no occurrence of the placeholder of any key. (The
  header repeats the flags and is not covered.)
\<close>

theorem no_placeholder_left:
  assumes "resolved w keys" and "isDir w p = Some False"
    and "files w (p @ ''.safekeeper'') = Some content" and "fits content"
    and "writable w (if out = [] then p else out)"
    and "enumerates w"
    and "valuesClearOf w keys (placeholders keys)"
    and "\<forall>k \<in> set (keyList keys). newline \<notin> set k"
  shows "failure (run w g keys out [p]) = None
         \<and> writes (run w g keys out [p])
             = [(if out = [] then p else out,
                 warningLine @ [newline] @ directiveLine g @ [newline]
                 @ body (setupReplacers w (keyValuesOf w keys)) content)]
         \<and> (\<forall>k \<in> set (keyList keys).
               \<not> sublist (''ENV_'' @ k) (body (setupReplacers w (keyValuesOf w keys)) content))"
proof -
  let ?rs = "setupReplacers w (keyValuesOf w keys)"
  have r: "run w g keys out [p] =
     \<lparr>failure = None, reads = [p @ ''.safekeeper''],
      writes = [(if out = [] then p else out,
                 warningLine @ [newline] @ directiveLine g @ [newline] @ body ?rs content)]\<rparr>"
    using assms(3,4,5) by (simp add: run_file [OF assms(1,2)])
  have ne: "\<forall>r \<in> set ?rs. fst r \<noteq> [] \<and> snd r \<noteq> []"
    using assms(1,6) by (rule replacers_props(1))
  have cl: "\<forall>r \<in> set ?rs. \<forall>t \<in> set (placeholders keys). \<not> overlaps (snd r) t"
    using assms(1,6,7) by (rule replacers_props(2))
  have toks: "fst ` set ?rs = set (placeholders keys)"
    using assms(6) by (auto simp: set_setupReplacers placeholders_def image_iff)
  have cl': "\<forall>r \<in> set ?rs. \<forall>r' \<in> set ?rs. \<not> overlaps (snd r) (fst r')"
    using cl toks by blast
  have "\<not> sublist (''ENV_'' @ k) (body ?rs content)" if k: "k \<in> set (keyList keys)" for k
  proof -
    from k assms(6) have r0: "(''ENV_'' @ k, Getenv w k) \<in> set ?rs"
      by (auto simp: set_setupReplacers)
    have line: "\<not> sublist (''ENV_'' @ k) (substituted ?rs l)" for l
      using fold_removes [OF ne cl' r0, of l] by (simp add: substituted_def)
    from k assms(8) have nl: "newline \<notin> set (''ENV_'' @ k)" by simp
    have "''ENV_'' @ k \<noteq> []" by simp
    from concat_lines_absent [OF this nl, of "keptLines content" "substituted ?rs"] line
    show ?thesis by (simp add: body_def)
  qed
  with r show ?thesis by simp
qed

lemma not_overlaps_bar: "\<not> overlaps ''bar'' ''ENV_FOO''"
  by (simp add: overlaps_def sublist_code suffix_to_prefix)

theorem no_placeholder_left_witness:
  "resolved ex_os ''FOO'' \<and> isDir ex_os ''f.go'' = Some False
   \<and> files ex_os (''f.go'' @ ''.safekeeper'') = Some ''x := ENV_FOO''
   \<and> fits ''x := ENV_FOO'' \<and> writable ex_os ''f.go'' \<and> enumerates ex_os
   \<and> valuesClearOf ex_os ''FOO'' (placeholders ''FOO'')
   \<and> newline \<notin> set ''FOO''
   \<and> failure (run ex_os ex_flags ''FOO'' [] [''f.go'']) = None
   \<and> \<not> sublist ''ENV_FOO''
         (body (setupReplacers ex_os (keyValuesOf ex_os ''FOO'')) ''x := ENV_FOO'')"
proof -
  have h1: "resolved ex_os ''FOO''" by (rule resolved_ex)
  have h2: "isDir ex_os ''f.go'' = Some False" by (simp add: ex_os_def)
  have h3: "files ex_os (''f.go'' @ ''.safekeeper'') = Some ''x := ENV_FOO''"
    by (simp add: ex_os_def)
  have h4: "fits ''x := ENV_FOO''" by (rule fits_ex)
  have h5: "writable ex_os (if [] = [] then ''f.go'' else [])" by (simp add: ex_os_def)
  have h6: "enumerates ex_os" by (simp add: enumerates_def ex_os_def)
  have h7: "valuesClearOf ex_os ''FOO'' (placeholders ''FOO'')"
    by (simp add: valuesClearOf_def placeholders_def keyList_def Getenv_def ex_os_def
        not_overlaps_bar)
  have h8: "\<forall>k \<in> set (keyList ''FOO''). newline \<notin> set k"
    by (simp add: keyList_def)
  from no_placeholder_left [OF h1 h2 h3 h4 h5 h6 h7 h8, of ex_flags]
  have "failure (run ex_os ex_flags ''FOO'' [] [''f.go'']) = None"
    and "\<forall>k \<in> set (keyList ''FOO'').
          \<not> sublist (''ENV_'' @ k)
              (body (setupReplacers ex_os (keyValuesOf ex_os ''FOO'')) ''x := ENV_FOO'')"
    by blast+
  then have "failure (run ex_os ex_flags ''FOO'' [] [''f.go'']) = None"
    and "\<not> sublist ''ENV_FOO''
          (body (setupReplacers ex_os (keyValuesOf ex_os ''FOO'')) ''x := ENV_FOO'')"
    by (simp_all add: keyList_def)
  moreover have "newline \<notin> set ''FOO''" by simp
  ultimately show ?thesis using h1 h2 h3 h4 h5 h6 h7 by simp
qed

text \<open>
  C2 as stated (for all values, also values that contain placeholders) fails: with
  \<open>FOO=ENV_FOO\<close> the line \<open>x := ENV_FOO\<close> is written unchanged.
\<close>

lemma selfref_run:
  "run selfref_os ex_flags ''FOO'' [] [''f.go''] =
     \<lparr>failure = None, reads = [''f.go.safekeeper''],
      writes = [(''f.go'', warningLine @ [newline]
                  @ ''//go:generate safekeeper --keys=FOO $GOFILE'' @ [newline]
                  @ ''x := ENV_FOO'' @ [newline])]\<rparr>"
proof -
  have r: "resolved selfref_os ''FOO''"
    by (simp add: resolved_def keyList_def Getenv_def selfref_os_def ex_os_def)
  have d: "isDir selfref_os ''f.go'' = Some False" by (simp add: selfref_os_def ex_os_def)
  have f: "files selfref_os ''f.go.safekeeper'' = Some ''x := ENV_FOO''"
    by (simp add: selfref_os_def ex_os_def)
  have w: "writable selfref_os ''f.go''" by (simp add: selfref_os_def ex_os_def)
  have dl: "directiveLine ex_flags = ''//go:generate safekeeper --keys=FOO $GOFILE''"
    by (simp add: directiveLine_def ex_flags_def)
  have b: "body (setupReplacers selfref_os (keyValuesOf selfref_os ''FOO'')) ''x := ENV_FOO''
             = ''x := ENV_FOO'' @ [newline]"
    by (simp add: eval_simps selfref_os_def ex_os_def)
  show ?thesis
    by (subst run_file [OF r d]) (simp add: f fits_ex w dl b)
qed

theorem placeholder_left_counterexample:
  "resolved selfref_os ''FOO''
   \<and> run selfref_os ex_flags ''FOO'' [] [''f.go''] =
       \<lparr>failure = None, reads = [''f.go.safekeeper''],
        writes = [(''f.go'', warningLine @ [newline]
                  @ ''//go:generate safekeeper --keys=FOO $GOFILE'' @ [newline]
                  @ ''x := ENV_FOO'' @ [newline])]\<rparr>
   \<and> sublist ''ENV_FOO'' (warningLine @ [newline]
                  @ ''//go:generate safekeeper --keys=FOO $GOFILE'' @ [newline]
                  @ ''x := ENV_FOO'' @ [newline])"
proof -
  have "resolved selfref_os ''FOO''"
    by (simp add: resolved_def keyList_def Getenv_def selfref_os_def ex_os_def)
  moreover have "sublist ''ENV_FOO'' (warningLine @ [newline]
                  @ ''//go:generate safekeeper --keys=FOO $GOFILE'' @ [newline]
                  @ ''x := ENV_FOO'' @ [newline])"
    by (rule sublist_order.order_trans [of _ "''x := ENV_FOO''"])
       (simp_all add: sublist_code sublist_append)
  ultimately show ?thesis using selfref_run by simp
qed

subsection \<open>Directive lines\<close>










subsection \<open>Two replacers in either order\<close>









subsection \<open>The order of the replacers\<close>

















subsection \<open>Substitution as one pass over the line\<close>
































end
